theory Spec2Isabelle
  imports Main "HOL-Library.Char_ord" "HOL-Library.List_Lexorder" "HOL-Library.Product_Lexorder"
begin

section \<open>The formula parser of atomcount.py\<close>

text \<open>
  The development embeds \<^verbatim>\<open>count_of_atoms\<close> and its local function \<^verbatim>\<open>parse\<close>
  from \<^verbatim>\<open>src/Random Questions/atomcount.py\<close>.

  Modelling decisions:
  \<^item> A formula is a \<open>string\<close> over the ASCII alphabet, one \<open>char\<close> per character; on
    ASCII the Python tests \<^verbatim>\<open>str.isalpha\<close>, \<^verbatim>\<open>str.islower\<close> and \<^verbatim>\<open>str.isdigit\<close> are the
    ranges written below. Characters beyond ASCII are outside the model.
  \<^item> Cursor positions and quantities are natural numbers: the cursor starts at 0 and is
    only ever incremented, and \<^verbatim>\<open>int\<close> is only applied to non-empty runs of digits.
    Python integers are unbounded, and so is \<open>nat\<close>.
  \<^item> A \<^verbatim>\<open>defaultdict(int)\<close> is an association list in insertion order with distinct
    keys, as Python dictionaries keep their items.
  \<^item> An uncaught Python exception is a value \<open>Inl e\<close> of the result type.
  \<^item> Strings are ordered as Python orders them: lexicographically, characters by code.
  \<^item> The limits of the interpreter (the depth of recursion, the number of digits that
    \<^verbatim>\<open>int\<close> converts) are not modelled.
\<close>

subsection \<open>Characters and slices\<close>

definition isalpha :: "char \<Rightarrow> bool" where
  "isalpha c = (let k = (of_char c :: nat) in (65 \<le> k \<and> k \<le> 90) \<or> (97 \<le> k \<and> k \<le> 122))"

definition islower :: "char \<Rightarrow> bool" where
  "islower c = (let k = (of_char c :: nat) in 97 \<le> k \<and> k \<le> 122)"

definition isdigit :: "char \<Rightarrow> bool" where
  "isdigit c = (let k = (of_char c :: nat) in 48 \<le> k \<and> k \<le> 57)"

text \<open>The slice \<^verbatim>\<open>s[a:b]\<close> for non-negative bounds; Python clips it to the string.\<close>

definition slice :: "string \<Rightarrow> nat \<Rightarrow> nat \<Rightarrow> string" where
  "slice s a b = take (b - a) (drop a s)"

text \<open>\<^verbatim>\<open>int(ds)\<close> on a run of ASCII digits: the decimal value, leading zeros allowed.\<close>

definition digit_value :: "char \<Rightarrow> nat" where
  "digit_value c = of_char c - 48"

definition int_of_digits :: "string \<Rightarrow> nat" where
  "int_of_digits ds = foldl (\<lambda>acc d. 10 * acc + digit_value d) 0 ds"

subsection \<open>Dictionaries of counts\<close>

type_synonym counts = "(string \<times> nat) list"

text \<open>\<^verbatim>\<open>counts[atom] += count\<close> on a \<^verbatim>\<open>defaultdict(int)\<close>: an absent key is created at the
  end with value \<^verbatim>\<open>0 + count\<close>, a present key is updated in place.\<close>

fun add_count :: "string \<Rightarrow> nat \<Rightarrow> counts \<Rightarrow> counts" where
  "add_count atom count [] = [(atom, count)]"
| "add_count atom count ((a, c) # rest) =
     (if a = atom then (a, c + count) # rest else (a, c) # add_count atom count rest)"

text \<open>The loop \<^verbatim>\<open>for atom, count in inner_counts.items(): counts[atom] += count * multiplier\<close>.\<close>

definition merge_counts :: "counts \<Rightarrow> nat \<Rightarrow> counts \<Rightarrow> counts" where
  "merge_counts inner_counts multiplier counts =
     fold (\<lambda>(atom, count) acc. add_count atom (count * multiplier) acc) inner_counts counts"

text \<open>Reading \<^verbatim>\<open>counts[atom]\<close> from a \<^verbatim>\<open>defaultdict(int)\<close>: an absent key reads as 0.\<close>

fun lookup_count :: "counts \<Rightarrow> string \<Rightarrow> nat" where
  "lookup_count [] atom = 0"
| "lookup_count ((a, c) # rest) atom = (if a = atom then c else lookup_count rest atom)"

subsection \<open>The inner scanning loops\<close>

text \<open>\<^verbatim>\<open>while i + 1 < n and s[i + 1].islower(): i += 1\<close>; the result is the final \<open>i\<close>.\<close>

function skip_lower :: "string \<Rightarrow> nat \<Rightarrow> nat" where
  "skip_lower s i =
     (if i + 1 < length s \<and> islower (s ! (i + 1)) then skip_lower s (i + 1) else i)"
  by pat_completeness auto

termination
  by (relation "measure (\<lambda>(s, i). length s - i)") auto

declare skip_lower.simps [simp del]

text \<open>\<^verbatim>\<open>while i + 1 < n and s[i + 1].isdigit(): i += 1\<close>, used after an element symbol and
  after a closing parenthesis.\<close>

function skip_digits :: "string \<Rightarrow> nat \<Rightarrow> nat" where
  "skip_digits s i =
     (if i + 1 < length s \<and> isdigit (s ! (i + 1)) then skip_digits s (i + 1) else i)"
  by pat_completeness auto

termination
  by (relation "measure (\<lambda>(s, i). length s - i)") auto

declare skip_digits.simps [simp del]

text \<open>\<^verbatim>\<open>int(s[num_start:i + 1]) if num_start <= i else 1\<close>.\<close>

definition read_count :: "string \<Rightarrow> nat \<Rightarrow> nat \<Rightarrow> nat" where
  "read_count s num_start i =
     (if num_start \<le> i then int_of_digits (slice s num_start (i + 1)) else 1)"

subsection \<open>The recursive parser\<close>

text \<open>The exceptions the program can raise, none of which it catches.\<close>

datatype py_error = ValueError | TypeError | AttributeError

text \<open>
  \<^verbatim>\<open>parse\<close> has two return statements of different shapes: \<^verbatim>\<open>return counts, i\<close> at a
  closing parenthesis (a tuple) and \<^verbatim>\<open>return counts\<close> when the loop runs off the end of
  the string (the bare dictionary).
\<close>

datatype retval = Dict counts | Tuple counts nat

text \<open>
  The \<^verbatim>\<open>while i < n\<close> loop of \<^verbatim>\<open>parse\<close>, with the loop variables \<open>i\<close> and \<open>counts\<close> as
  arguments. At an opening parenthesis the statement
  \<^verbatim>\<open>inner_counts, j = parse(s, i + 1)\<close> unpacks the callee's result: a tuple binds both
  names; a bare dictionary is iterated over its keys, which raises \<^verbatim>\<open>ValueError\<close> unless
  there are exactly two of them, and with two keys \<open>j\<close> is a string, so that
  \<^verbatim>\<open>num_start = j + 1\<close> raises \<^verbatim>\<open>TypeError\<close>.
\<close>

function parse_loop :: "string \<Rightarrow> nat \<Rightarrow> counts \<Rightarrow> py_error + retval" where
  "parse_loop s i counts =
     (if i < length s then
        if isalpha (s ! i) then
          let start = i;
              i1 = skip_lower s i;
              atom = slice s start (i1 + 1);
              num_start = i1 + 1;
              i2 = skip_digits s i1;
              count = read_count s num_start i2
          in parse_loop s (i2 + 1) (add_count atom count counts)
        else if s ! i = CHR ''('' then
          (case parse_loop s (i + 1) [] of
             Inl e \<Rightarrow> Inl e
           | Inr (Dict keys) \<Rightarrow> if length keys = 2 then Inl TypeError else Inl ValueError
           | Inr (Tuple inner_counts j) \<Rightarrow>
               let num_start = j + 1;
                   j2 = skip_digits s j;
                   multiplier = read_count s num_start j2
               in parse_loop s (j2 + 1) (merge_counts inner_counts multiplier counts))
        else if s ! i = CHR '')'' then Inr (Tuple counts i)
        else parse_loop s (i + 1) counts
      else Inr (Dict counts))"
  by pat_completeness auto

lemma skip_lower_ge: "i \<le> skip_lower s i"
  by (induction s i rule: skip_lower.induct) (subst skip_lower.simps, auto)

lemma skip_digits_ge: "i \<le> skip_digits s i"
  by (induction s i rule: skip_digits.induct) (subst skip_digits.simps, auto)

lemma parse_loop_partial_ge:
  "parse_loop_dom (s, i, counts) \<Longrightarrow> parse_loop s i counts = Inr (Tuple c j) \<Longrightarrow> i \<le> j"
proof (induction s i counts arbitrary: c j rule: parse_loop.pinduct)
  case (1 s i counts)
  show ?case
  proof (cases "i < length s")
    case False
    with "1.prems" "1.hyps" show ?thesis by (simp add: parse_loop.psimps)
  next
    case inb: True
    show ?thesis
    proof (cases "isalpha (s ! i)")
      case True
      let ?i1 = "skip_lower s i"
      let ?i2 = "skip_digits s ?i1"
      from "1.prems" "1.hyps" inb True
      have "parse_loop s (?i2 + 1)
              (add_count (slice s i (?i1 + 1)) (read_count s (?i1 + 1) ?i2) counts)
            = Inr (Tuple c j)"
        by (simp add: parse_loop.psimps Let_def)
      from "1.IH"(1)[OF inb True refl refl refl refl refl refl this]
      have "?i2 + 1 \<le> j" .
      moreover have "i \<le> ?i2" using skip_lower_ge[of i s] skip_digits_ge[of ?i1 s] by linarith
      ultimately show ?thesis by linarith
    next
      case na: False
      show ?thesis
      proof (cases "s ! i = CHR ''(''")
        case True
        from "1.prems" "1.hyps" inb na True
        obtain inner k where
          inner: "parse_loop s (i + 1) [] = Inr (Tuple inner k)" and
          rest: "parse_loop s (skip_digits s k + 1)
                   (merge_counts inner (read_count s (k + 1) (skip_digits s k)) counts)
                 = Inr (Tuple c j)"
          by (auto simp add: parse_loop.psimps Let_def split: sum.splits retval.splits if_splits)
        have "i + 1 \<le> k" using "1.IH"(2)[OF inb na True inner] .
        moreover have "skip_digits s k + 1 \<le> j"
          using "1.IH"(3)[OF inb na True inner refl refl refl refl rest] .
        moreover have "k \<le> skip_digits s k" by (rule skip_digits_ge)
        ultimately show ?thesis by linarith
      next
        case np: False
        show ?thesis
        proof (cases "s ! i = CHR '')''")
          case True
          with "1.prems" "1.hyps" inb na np show ?thesis
            by (simp add: parse_loop.psimps)
        next
          case False
          with "1.prems" "1.hyps" inb na np
          have "parse_loop s (i + 1) counts = Inr (Tuple c j)"
            by (simp add: parse_loop.psimps)
          from "1.IH"(4)[OF inb na np False this] show ?thesis by linarith
        qed
      qed
    qed
  qed
qed

lemma skip_both_ge: "i \<le> skip_digits s (skip_lower s i)"
  using skip_lower_ge [of i s] skip_digits_ge [of "skip_lower s i" s] by linarith

text \<open>Every chain of recursive calls is finite: each call is at a position strictly
  to the right of its caller's.\<close>

lemma parse_loop_total: "All parse_loop_dom"
proof (relation "measure (\<lambda>(s, i, counts). length s - i)", goal_cases)
  case 1
  show ?case by simp
next
  case 2
  then show ?case using skip_both_ge by (auto simp: less_Suc_eq_le intro!: diff_less_mono2)
next
  case 3
  then show ?case by simp
next
  case (4 s i counts r inner j)
  from 4 have "i + 1 \<le> j"
    using parse_loop_partial_ge [of s "i + 1" "[]" inner j] by simp
  then have "i < skip_digits s j + 1"
    using skip_digits_ge [of j s] by linarith
  with 4 show ?case by auto
next
  case 5
  then show ?case by simp
qed

termination parse_loop
  by (rule parse_loop_total)

declare parse_loop.simps [simp del]

text \<open>\<^verbatim>\<open>parse(s, i)\<close>: a fresh \<^verbatim>\<open>defaultdict(int)\<close>, then the loop.\<close>

definition parse :: "string \<Rightarrow> nat \<Rightarrow> py_error + retval" where
  "parse s i = parse_loop s i []"

text \<open>
  \<^verbatim>\<open>count_of_atoms(formula)\<close> calls \<^verbatim>\<open>parse(formula, 0)\<close> and prints one line per
  item of \<^verbatim>\<open>sorted(result.items())\<close>. The model returns the items in the order printed.
  When \<^verbatim>\<open>parse\<close> returned a tuple, \<^verbatim>\<open>result.items()\<close> raises \<^verbatim>\<open>AttributeError\<close>.
\<close>

definition count_of_atoms :: "string \<Rightarrow> py_error + (string \<times> nat) list" where
  "count_of_atoms formula =
     (case parse formula 0 of
        Inl e \<Rightarrow> Inl e
      | Inr (Tuple counts i) \<Rightarrow> Inl AttributeError
      | Inr (Dict result) \<Rightarrow> Inr (sort result))"

section \<open>The trace of the cursor\<close>

text \<open>
  An instrumented copy of the three loops that records every value the cursor takes:
  the position at the head of each iteration of \<^verbatim>\<open>while i < n\<close>, at every level of the
  recursion, and the position after each \<^verbatim>\<open>i += 1\<close> or \<^verbatim>\<open>j += 1\<close> of the two inner
  loops, in the order of execution. The trace has one entry per loop iteration.
\<close>

function skip_lower_trace :: "string \<Rightarrow> nat \<Rightarrow> nat list" where
  "skip_lower_trace s i =
     (if i + 1 < length s \<and> islower (s ! (i + 1)) then (i + 1) # skip_lower_trace s (i + 1)
      else [])"
  by pat_completeness auto

termination
  by (relation "measure (\<lambda>(s, i). length s - i)") auto

declare skip_lower_trace.simps [simp del]

function skip_digits_trace :: "string \<Rightarrow> nat \<Rightarrow> nat list" where
  "skip_digits_trace s i =
     (if i + 1 < length s \<and> isdigit (s ! (i + 1)) then (i + 1) # skip_digits_trace s (i + 1)
      else [])"
  by pat_completeness auto

termination
  by (relation "measure (\<lambda>(s, i). length s - i)") auto

declare skip_digits_trace.simps [simp del]

text \<open>A position returned by a nested invocation is not to the left of its start; the
  trace below continues from it.\<close>

lemma parse_loop_ge: "parse_loop s i counts = Inr (Tuple c j) \<Longrightarrow> i \<le> j"
proof -
  assume ret: "parse_loop s i counts = Inr (Tuple c j)"
  have "parse_loop_dom (s, i, counts)" using parse_loop_total by blast
  then show "i \<le> j" using ret by (rule parse_loop_partial_ge)
qed

function cursor_trace :: "string \<Rightarrow> nat \<Rightarrow> nat list" where
  "cursor_trace s i =
     (if i < length s then
        if isalpha (s ! i) then
          let i1 = skip_lower s i;
              i2 = skip_digits s i1
          in i # skip_lower_trace s i @ skip_digits_trace s i1 @ cursor_trace s (i2 + 1)
        else if s ! i = CHR ''('' then
          i # cursor_trace s (i + 1) @
            (case parse_loop s (i + 1) [] of
               Inr (Tuple inner_counts j) \<Rightarrow>
                 let j2 = skip_digits s j
                 in skip_digits_trace s j @ cursor_trace s (j2 + 1)
             | _ \<Rightarrow> [])
        else if s ! i = CHR '')'' then [i]
        else i # cursor_trace s (i + 1)
      else [])"
  by pat_completeness auto

termination cursor_trace
proof (relation "measure (\<lambda>(s, i). length s - i)", goal_cases)
  case 1
  show ?case by simp
next
  case (2 s i)
  then show ?case using skip_both_ge [of i s] by auto
next
  case 3
  then show ?case by simp
next
  case (4 s i r inner j j2)
  then have "i + 1 \<le> j"
    using parse_loop_ge [of s "i + 1" "[]" inner j] by simp
  then have "i < skip_digits s j + 1"
    using skip_digits_ge [of j s] by linarith
  with 4 show ?case by auto
next
  case 5
  then show ?case by simp
qed

declare cursor_trace.simps [simp del]

section \<open>The parentheses of an input\<close>



section \<open>Dictionaries as mappings\<close>

text \<open>Whether a key is in a dictionary, whether the keys of an association list are
  distinct (as those of a dictionary are), and whether all its values are positive.\<close>

fun has_key :: "string \<Rightarrow> counts \<Rightarrow> bool" where
  "has_key a [] = False"
| "has_key a ((b, n) # rest) = (a = b \<or> has_key a rest)"

fun distinct_keys :: "counts \<Rightarrow> bool" where
  "distinct_keys [] = True"
| "distinct_keys ((a, n) # rest) = (\<not> has_key a rest \<and> distinct_keys rest)"

fun positive_counts :: "counts \<Rightarrow> bool" where
  "positive_counts [] = True"
| "positive_counts ((a, n) # rest) = (0 < n \<and> positive_counts rest)"


section \<open>The reference: full expansion of a formula\<close>

text \<open>
  The definitions of this section follow the specification, not the program. A valid
  formula is a word of the grammar
  \<^verbatim>\<open>formula := term*\<close>, \<^verbatim>\<open>term := element count? | '(' formula ')' count?\<close>,
  \<^verbatim>\<open>element := UPPER lower*\<close>, \<^verbatim>\<open>count := DIGIT+\<close>.
  A derivation is a list of \<open>formula_term\<close>s, each an element with its digits or a group
  with its terms and its digits (no digits when the count is absent); \<open>well_formed\<close> holds
  when the symbols and digits are as the grammar says, and \<open>render\<close> spells the word.
\<close>

definition isupper :: "char \<Rightarrow> bool" where
  "isupper c = (let k = (of_char c :: nat) in 65 \<le> k \<and> k \<le> 90)"

datatype formula_term = Element string string | Group "formula_term list" string

fun well_formed :: "formula_term \<Rightarrow> bool" where
  "well_formed (Element symbol digits) =
     ((case symbol of [] \<Rightarrow> False | u # ls \<Rightarrow> isupper u \<and> list_all islower ls) \<and>
      list_all isdigit digits)"
| "well_formed (Group terms digits) = (list_all well_formed terms \<and> list_all isdigit digits)"

fun render :: "formula_term \<Rightarrow> string" where
  "render (Element symbol digits) = symbol @ digits"
| "render (Group terms digits) = CHR ''('' # concat (map render terms) @ CHR '')'' # digits"

definition render_formula :: "formula_term list \<Rightarrow> string" where
  "render_formula terms = concat (map render terms)"

text \<open>A multiplier defaults to 1 when absent.\<close>

definition multiplier :: "string \<Rightarrow> nat" where
  "multiplier digits = (if digits = [] then 1 else int_of_digits digits)"

text \<open>
  The reference evaluation: every group is expanded, its contents repeated as many times
  as its multiplier says, and an element is repeated as many times as its count says;
  the atoms of the resulting flat list are then counted with \<open>count_list\<close>.
\<close>

fun expand :: "formula_term \<Rightarrow> string list" where
  "expand (Element symbol digits) = replicate (multiplier digits) symbol"
| "expand (Group terms digits) =
     concat (replicate (multiplier digits) (concat (map expand terms)))"

definition expand_formula :: "formula_term list \<Rightarrow> string list" where
  "expand_formula terms = concat (map expand terms)"

text \<open>No count and no multiplier of the formula is zero.\<close>

fun positive_multipliers :: "formula_term \<Rightarrow> bool" where
  "positive_multipliers (Element symbol digits) = (0 < multiplier digits)"
| "positive_multipliers (Group terms digits) =
     (list_all positive_multipliers terms \<and> 0 < multiplier digits)"

subsection \<open>The arithmetic of the parser along a derivation\<close>

text \<open>What the arithmetic of the parser does to its dictionary along a derivation: an
  element adds its count, a group merges the counts of its body, multiplied on exit.\<close>

fun term_counts :: "formula_term \<Rightarrow> counts \<Rightarrow> counts" where
  "term_counts (Element symbol digits) acc = add_count symbol (multiplier digits) acc"
| "term_counts (Group terms digits) acc =
     merge_counts (fold term_counts terms []) (multiplier digits) acc"

text \<open>The text after a term neither continues a symbol nor a count.\<close>

definition follow_ok :: "string \<Rightarrow> bool" where
  "follow_ok rest = (case rest of [] \<Rightarrow> True | c # _ \<Rightarrow> \<not> islower c \<and> \<not> isdigit c)"

section \<open>The loop, case by case\<close>

text \<open>One unfolding of the loop for each branch of its body, and the induction rule
  that follows the recursion of \<^verbatim>\<open>parse\<close>.\<close>

lemma not_isalpha_paren: "\<not> isalpha CHR ''(''" "\<not> isalpha CHR '')''"
  by (simp_all add: isalpha_def)

lemma parse_loop_end: "\<not> i < length s \<Longrightarrow> parse_loop s i counts = Inr (Dict counts)"
  by (subst parse_loop.simps) simp

lemma parse_loop_alpha:
  "i < length s \<Longrightarrow> isalpha (s ! i) \<Longrightarrow>
   parse_loop s i counts =
     parse_loop s (skip_digits s (skip_lower s i) + 1)
       (add_count (slice s i (skip_lower s i + 1))
          (read_count s (skip_lower s i + 1) (skip_digits s (skip_lower s i))) counts)"
  by (subst parse_loop.simps) (simp add: Let_def)

lemma parse_loop_open:
  "i < length s \<Longrightarrow> s ! i = CHR ''('' \<Longrightarrow>
   parse_loop s i counts =
     (case parse_loop s (i + 1) [] of
        Inl e \<Rightarrow> Inl e
      | Inr (Dict keys) \<Rightarrow> if length keys = 2 then Inl TypeError else Inl ValueError
      | Inr (Tuple inner_counts j) \<Rightarrow>
          parse_loop s (skip_digits s j + 1)
            (merge_counts inner_counts (read_count s (j + 1) (skip_digits s j)) counts))"
  by (subst parse_loop.simps) (simp add: Let_def not_isalpha_paren split: sum.split retval.split)

lemma parse_loop_close:
  "i < length s \<Longrightarrow> s ! i = CHR '')'' \<Longrightarrow> parse_loop s i counts = Inr (Tuple counts i)"
  by (subst parse_loop.simps) (simp add: not_isalpha_paren)

lemma parse_loop_other:
  "i < length s \<Longrightarrow> \<not> isalpha (s ! i) \<Longrightarrow> s ! i \<noteq> CHR ''('' \<Longrightarrow> s ! i \<noteq> CHR '')'' \<Longrightarrow>
   parse_loop s i counts = parse_loop s (i + 1) counts"
  by (subst parse_loop.simps) simp

lemma parse_loop_cases_induct [case_names End Alpha Open Close Other]:
  assumes "\<And>s i counts. \<not> i < length s \<Longrightarrow> P s i counts"
    and "\<And>s i counts. i < length s \<Longrightarrow> isalpha (s ! i) \<Longrightarrow>
          P s (skip_digits s (skip_lower s i) + 1)
            (add_count (slice s i (skip_lower s i + 1))
               (read_count s (skip_lower s i + 1) (skip_digits s (skip_lower s i))) counts) \<Longrightarrow>
          P s i counts"
    and "\<And>s i counts. i < length s \<Longrightarrow> s ! i = CHR ''('' \<Longrightarrow> P s (i + 1) [] \<Longrightarrow>
          (\<And>inner j. parse_loop s (i + 1) [] = Inr (Tuple inner j) \<Longrightarrow>
             P s (skip_digits s j + 1)
               (merge_counts inner (read_count s (j + 1) (skip_digits s j)) counts)) \<Longrightarrow>
          P s i counts"
    and "\<And>s i counts. i < length s \<Longrightarrow> s ! i = CHR '')'' \<Longrightarrow> P s i counts"
    and "\<And>s i counts. i < length s \<Longrightarrow> \<not> isalpha (s ! i) \<Longrightarrow> s ! i \<noteq> CHR ''('' \<Longrightarrow>
          s ! i \<noteq> CHR '')'' \<Longrightarrow> P s (i + 1) counts \<Longrightarrow> P s i counts"
  shows "P s i counts"
proof (induction s i counts rule: parse_loop.induct)
  case (1 s i counts)
  show ?case
  proof (cases "i < length s")
    case False
    then show ?thesis by (rule assms(1))
  next
    case inb: True
    show ?thesis
    proof (cases "isalpha (s ! i)")
      case True
      show ?thesis
        by (rule assms(2) [OF inb True]) (rule "1.IH"(1) [OF inb True refl refl refl refl refl refl])
    next
      case na: False
      show ?thesis
      proof (cases "s ! i = CHR ''(''")
        case True
        show ?thesis
        proof (rule assms(3) [OF inb True])
          show "P s (i + 1) []" by (rule "1.IH"(2) [OF inb na True])
        next
          fix inner j
          assume "parse_loop s (i + 1) [] = Inr (Tuple inner j)"
          then show "P s (skip_digits s j + 1)
               (merge_counts inner (read_count s (j + 1) (skip_digits s j)) counts)"
            by (rule "1.IH"(3) [OF inb na True _ refl refl refl refl])
        qed
      next
        case no: False
        show ?thesis
        proof (cases "s ! i = CHR '')''")
          case True
          then show ?thesis by (rule assms(4) [OF inb])
        next
          case False
          show ?thesis
            by (rule assms(5) [OF inb na no False]) (rule "1.IH"(4) [OF inb na no False])
        qed
      qed
    qed
  qed
qed

lemma parse_loop_forward:
  "parse_loop s i counts = Inr (Tuple c j) \<Longrightarrow> i \<le> j \<and> j < length s \<and> s ! j = CHR '')''"
proof (induction s i counts arbitrary: c j rule: parse_loop_cases_induct)
  case (End s i counts)
  then show ?case by (simp add: parse_loop_end)
next
  case (Alpha s i counts)
  from Alpha.IH [of c j] Alpha.prems Alpha.hyps skip_both_ge [of i s]
  show ?case by (simp add: parse_loop_alpha)
next
  case (Open s i counts)
  from Open.prems Open.hyps obtain inner k where
    inner: "parse_loop s (i + 1) [] = Inr (Tuple inner k)" and
    rest: "parse_loop s (skip_digits s k + 1)
             (merge_counts inner (read_count s (k + 1) (skip_digits s k)) counts)
           = Inr (Tuple c j)"
    by (auto simp add: parse_loop_open split: sum.splits retval.splits if_splits)
  from Open.IH(1) [OF inner] Open.IH(2) [OF inner rest] skip_digits_ge [of k s]
  show ?case by simp
next
  case (Close s i counts)
  then show ?case by (auto simp add: parse_loop_close)
next
  case (Other s i counts)
  from Other.IH [of c j] Other.prems Other.hyps show ?case by (simp add: parse_loop_other)
qed

lemma skip_lower_lt: "i < length s \<Longrightarrow> skip_lower s i < length s"
  by (induction s i rule: skip_lower.induct) (subst skip_lower.simps, auto)

lemma skip_digits_lt: "i < length s \<Longrightarrow> skip_digits s i < length s"
  by (induction s i rule: skip_digits.induct) (subst skip_digits.simps, auto)

lemma le_skip_digits: "a \<le> j \<Longrightarrow> a \<le> skip_digits s j"
  using skip_digits_ge [of j s] by linarith

section \<open>Facts about the trace\<close>

lemma skip_lower_trace_upt: "skip_lower_trace s i = [Suc i ..< Suc (skip_lower s i)]"
proof (induction s i rule: skip_lower.induct)
  case (1 s i)
  show ?case
  proof (cases "i + 1 < length s \<and> islower (s ! (i + 1))")
    case True
    then have "skip_lower_trace s i = Suc i # [Suc (Suc i) ..< Suc (skip_lower s (Suc i))]"
      using 1 by (subst skip_lower_trace.simps) simp
    also have "\<dots> = [Suc i ..< Suc (skip_lower s (Suc i))]"
      using skip_lower_ge [of "Suc i" s] by (simp add: upt_conv_Cons)
    also have "skip_lower s (Suc i) = skip_lower s i"
      using True by (subst (2) skip_lower.simps) simp
    finally show ?thesis .
  next
    case False
    then have "skip_lower_trace s i = []"
      by (subst skip_lower_trace.simps) auto
    moreover from False have "skip_lower s i = i"
      by (subst skip_lower.simps) auto
    ultimately show ?thesis by simp
  qed
qed

lemma skip_digits_trace_upt: "skip_digits_trace s i = [Suc i ..< Suc (skip_digits s i)]"
proof (induction s i rule: skip_digits.induct)
  case (1 s i)
  show ?case
  proof (cases "i + 1 < length s \<and> isdigit (s ! (i + 1))")
    case True
    then have "skip_digits_trace s i = Suc i # [Suc (Suc i) ..< Suc (skip_digits s (Suc i))]"
      using 1 by (subst skip_digits_trace.simps) simp
    also have "\<dots> = [Suc i ..< Suc (skip_digits s (Suc i))]"
      using skip_digits_ge [of "Suc i" s] by (simp add: upt_conv_Cons)
    also have "skip_digits s (Suc i) = skip_digits s i"
      using True by (subst (2) skip_digits.simps) simp
    finally show ?thesis .
  next
    case False
    then have "skip_digits_trace s i = []"
      by (subst skip_digits_trace.simps) auto
    moreover from False have "skip_digits s i = i"
      by (subst skip_digits.simps) auto
    ultimately show ?thesis by simp
  qed
qed

lemma cursor_trace_end: "\<not> i < length s \<Longrightarrow> cursor_trace s i = []"
  by (subst cursor_trace.simps) simp

lemma cursor_trace_alpha:
  "i < length s \<Longrightarrow> isalpha (s ! i) \<Longrightarrow>
   cursor_trace s i =
     [i ..< Suc (skip_digits s (skip_lower s i))] @
     cursor_trace s (skip_digits s (skip_lower s i) + 1)"
proof -
  assume a: "i < length s" "isalpha (s ! i)"
  let ?i1 = "skip_lower s i"
  let ?i2 = "skip_digits s ?i1"
  have "[i ..< Suc ?i2] = [i ..< Suc ?i1] @ [Suc ?i1 ..< Suc ?i2]"
    using skip_lower_ge [of i s] skip_digits_ge [of ?i1 s]
      upt_add_eq_append [of i "Suc ?i1" "?i2 - ?i1"]
    by simp
  also have "[i ..< Suc ?i1] = i # [Suc i ..< Suc ?i1]"
    using skip_lower_ge [of i s] by (simp add: upt_conv_Cons)
  finally have "[i ..< Suc ?i2] = i # skip_lower_trace s i @ skip_digits_trace s ?i1"
    by (simp add: skip_lower_trace_upt skip_digits_trace_upt)
  with a show ?thesis
    by (subst cursor_trace.simps) (simp add: Let_def)
qed

lemma cursor_trace_open:
  "i < length s \<Longrightarrow> s ! i = CHR ''('' \<Longrightarrow>
   cursor_trace s i =
     i # cursor_trace s (i + 1) @
       (case parse_loop s (i + 1) [] of
          Inr (Tuple inner_counts j) \<Rightarrow>
            [Suc j ..< Suc (skip_digits s j)] @ cursor_trace s (skip_digits s j + 1)
        | _ \<Rightarrow> [])"
  by (subst cursor_trace.simps)
     (simp add: Let_def not_isalpha_paren skip_digits_trace_upt split: sum.split retval.split)

lemma cursor_trace_close:
  "i < length s \<Longrightarrow> s ! i = CHR '')'' \<Longrightarrow> cursor_trace s i = [i]"
  by (subst cursor_trace.simps) (simp add: not_isalpha_paren)

lemma cursor_trace_other:
  "i < length s \<Longrightarrow> \<not> isalpha (s ! i) \<Longrightarrow> s ! i \<noteq> CHR ''('' \<Longrightarrow> s ! i \<noteq> CHR '')'' \<Longrightarrow>
   cursor_trace s i = i # cursor_trace s (i + 1)"
  by (subst cursor_trace.simps) simp

lemma sorted_wrt_less_append:
  fixes xs ys :: "nat list"
  assumes "sorted_wrt (<) xs" and "sorted_wrt (<) ys"
    and "\<forall>x \<in> set xs. x \<le> m" and "\<forall>y \<in> set ys. m < y"
  shows "sorted_wrt (<) (xs @ ys)"
  unfolding sorted_wrt_append using assms by (meson le_less_trans)

lemma cursor_trace_bounds:
  "sorted_wrt (<) (cursor_trace s i) \<and>
   (\<forall>k \<in> set (cursor_trace s i). i \<le> k \<and> k < length s) \<and>
   (\<forall>c j. parse_loop s i counts = Inr (Tuple c j) \<longrightarrow>
      (\<forall>k \<in> set (cursor_trace s i). k \<le> j))"
proof (induction s i counts rule: parse_loop_cases_induct)
  case (End s i counts)
  then show ?case by (simp add: cursor_trace_end)
next
  case (Alpha s i counts)
  let ?i2 = "skip_digits s (skip_lower s i)"
  let ?T = "cursor_trace s (?i2 + 1)"
  let ?c = "add_count (slice s i (skip_lower s i + 1))
          (read_count s (skip_lower s i + 1) ?i2) counts"
  have le: "i \<le> ?i2" by (rule skip_both_ge)
  have lt: "?i2 < length s"
    using Alpha.hyps by (simp add: skip_lower_lt skip_digits_lt)
  have tr: "cursor_trace s i = [i ..< Suc ?i2] @ ?T"
    by (rule cursor_trace_alpha [OF Alpha.hyps])
  have pl: "parse_loop s i counts = parse_loop s (?i2 + 1) ?c"
    by (rule parse_loop_alpha [OF Alpha.hyps])
  from Alpha.IH have ih1: "sorted_wrt (<) ?T"
    and ih2: "\<forall>k \<in> set ?T. ?i2 + 1 \<le> k \<and> k < length s"
    and ih3: "\<And>c j. parse_loop s (?i2 + 1) ?c = Inr (Tuple c j) \<Longrightarrow> \<forall>k \<in> set ?T. k \<le> j"
    by blast+
  have 1: "sorted_wrt (<) (cursor_trace s i)"
    unfolding tr
  proof (rule sorted_wrt_less_append [where m = ?i2])
    show "sorted_wrt (<) [i ..< Suc ?i2]" by (rule sorted_wrt_upt)
    show "sorted_wrt (<) ?T" by (rule ih1)
    show "\<forall>x \<in> set [i ..< Suc ?i2]. x \<le> ?i2" by auto
    show "\<forall>y \<in> set ?T. ?i2 < y" using ih2 by auto
  qed
  have 2: "\<forall>k \<in> set (cursor_trace s i). i \<le> k \<and> k < length s"
    unfolding tr using ih2 le lt by auto
  have 3: "\<forall>k \<in> set (cursor_trace s i). k \<le> j"
    if eq: "parse_loop s i counts = Inr (Tuple c j)" for c j
  proof -
    from eq pl have eq': "parse_loop s (?i2 + 1) ?c = Inr (Tuple c j)" by simp
    from parse_loop_forward [OF eq'] have "?i2 + 1 \<le> j" by simp
    with ih3 [OF eq'] show ?thesis unfolding tr by auto
  qed
  from 1 2 3 show ?case by blast
next
  case (Open s i counts)
  show ?case
  proof (cases "\<exists>inner j. parse_loop s (i + 1) [] = Inr (Tuple inner j)")
    case False
    then have tr: "cursor_trace s i = i # cursor_trace s (i + 1)"
      by (auto simp add: cursor_trace_open [OF Open.hyps] split: sum.split retval.split)
    from False have no: "\<And>c j. parse_loop s i counts \<noteq> Inr (Tuple c j)"
      by (auto simp add: parse_loop_open [OF Open.hyps] split: sum.split retval.split)
    from Open.IH(1) have ih1: "sorted_wrt (<) (cursor_trace s (i + 1))"
      and ih2: "\<forall>k \<in> set (cursor_trace s (i + 1)). i + 1 \<le> k \<and> k < length s"
      by blast+
    have 1: "sorted_wrt (<) (cursor_trace s i)"
      unfolding tr using ih1 ih2 by auto
    have 2: "\<forall>k \<in> set (cursor_trace s i). i \<le> k \<and> k < length s"
      unfolding tr using ih2 Open.hyps by auto
    from 1 2 no show ?thesis by blast
  next
    case True
    then obtain inner j where inner: "parse_loop s (i + 1) [] = Inr (Tuple inner j)" by blast
    let ?j2 = "skip_digits s j"
    let ?c = "merge_counts inner (read_count s (j + 1) ?j2) counts"
    let ?N = "cursor_trace s (i + 1)"
    let ?T = "cursor_trace s (?j2 + 1)"
    from parse_loop_forward [OF inner] have fw: "i + 1 \<le> j" "j < length s" by auto
    have j2: "j \<le> ?j2" "?j2 < length s"
      using fw by (simp_all add: skip_digits_ge skip_digits_lt)
    have tr: "cursor_trace s i = (i # ?N @ [Suc j ..< Suc ?j2]) @ ?T"
      using inner by (simp add: cursor_trace_open [OF Open.hyps] del: upt_Suc)
    from Open.IH(1) inner have n1: "sorted_wrt (<) ?N"
      and n2: "\<forall>k \<in> set ?N. i + 1 \<le> k \<and> k \<le> j"
      by auto
    from Open.IH(2) [OF inner] have ih1: "sorted_wrt (<) ?T"
      and ih2: "\<forall>k \<in> set ?T. ?j2 + 1 \<le> k \<and> k < length s"
      and ih3: "\<And>c j'. parse_loop s (?j2 + 1) ?c = Inr (Tuple c j') \<Longrightarrow>
         \<forall>k \<in> set ?T. k \<le> j'"
      by blast+
    have pl: "parse_loop s i counts = parse_loop s (?j2 + 1) ?c"
      using inner by (simp add: parse_loop_open [OF Open.hyps])
    have mid: "sorted_wrt (<) (?N @ [Suc j ..< Suc ?j2])"
    proof (rule sorted_wrt_less_append [where m = j])
      show "sorted_wrt (<) ?N" by (rule n1)
      show "sorted_wrt (<) [Suc j ..< Suc ?j2]" by (rule sorted_wrt_upt)
      show "\<forall>x \<in> set ?N. x \<le> j" using n2 by auto
      show "\<forall>y \<in> set [Suc j ..< Suc ?j2]. j < y" by auto
    qed
    have front: "sorted_wrt (<) (i # ?N @ [Suc j ..< Suc ?j2])"
      using mid n2 fw by auto
    have front_le: "\<forall>x \<in> set (i # ?N @ [Suc j ..< Suc ?j2]). i \<le> x \<and> x \<le> ?j2"
      using n2 fw j2 by auto
    have 1: "sorted_wrt (<) (cursor_trace s i)"
      unfolding tr
    proof (rule sorted_wrt_less_append [where m = ?j2])
      show "sorted_wrt (<) (i # ?N @ [Suc j ..< Suc ?j2])" by (rule front)
      show "sorted_wrt (<) ?T" by (rule ih1)
      show "\<forall>x \<in> set (i # ?N @ [Suc j ..< Suc ?j2]). x \<le> ?j2" using front_le by blast
      show "\<forall>y \<in> set ?T. ?j2 < y" using ih2 by auto
    qed
    have 2: "\<forall>k \<in> set (cursor_trace s i). i \<le> k \<and> k < length s"
    proof
      fix k assume "k \<in> set (cursor_trace s i)"
      then consider "k \<in> set (i # ?N @ [Suc j ..< Suc ?j2])" | "k \<in> set ?T"
        unfolding tr by auto
      then show "i \<le> k \<and> k < length s"
      proof cases
        case 1
        with front_le have "i \<le> k \<and> k \<le> ?j2" by blast
        with j2 show ?thesis by linarith
      next
        case 2
        with ih2 have "?j2 + 1 \<le> k \<and> k < length s" by blast
        with fw j2 show ?thesis by linarith
      qed
    qed
    have 3: "\<forall>k \<in> set (cursor_trace s i). k \<le> j'"
      if eq: "parse_loop s i counts = Inr (Tuple c j')" for c j'
    proof
      fix k assume k: "k \<in> set (cursor_trace s i)"
      from eq pl have eq': "parse_loop s (?j2 + 1) ?c = Inr (Tuple c j')" by simp
      from parse_loop_forward [OF eq'] have le: "?j2 + 1 \<le> j'" by simp
      from k consider "k \<in> set (i # ?N @ [Suc j ..< Suc ?j2])" | "k \<in> set ?T"
        unfolding tr by auto
      then show "k \<le> j'"
      proof cases
        case 1
        with front_le have "k \<le> ?j2" by blast
        with le show ?thesis by linarith
      next
        case 2
        with ih3 [OF eq'] show ?thesis by blast
      qed
    qed
    from 1 2 3 show ?thesis by blast
  qed
next
  case (Close s i counts)
  then show ?case by (simp add: cursor_trace_close parse_loop_close)
next
  case (Other s i counts)
  let ?T = "cursor_trace s (i + 1)"
  have tr: "cursor_trace s i = i # ?T"
    using Other.hyps by (rule cursor_trace_other)
  have pl: "parse_loop s i counts = parse_loop s (i + 1) counts"
    using Other.hyps by (rule parse_loop_other)
  from Other.IH have ih1: "sorted_wrt (<) ?T"
    and ih2: "\<forall>k \<in> set ?T. i + 1 \<le> k \<and> k < length s"
    and ih3: "\<And>c j. parse_loop s (i + 1) counts = Inr (Tuple c j) \<Longrightarrow> \<forall>k \<in> set ?T. k \<le> j"
    by blast+
  have 1: "sorted_wrt (<) (cursor_trace s i)"
    unfolding tr using ih1 ih2 by auto
  have 2: "\<forall>k \<in> set (cursor_trace s i). i \<le> k \<and> k < length s"
    unfolding tr using ih2 Other.hyps by auto
  have 3: "\<forall>k \<in> set (cursor_trace s i). k \<le> j"
    if eq: "parse_loop s i counts = Inr (Tuple c j)" for c j
  proof -
    from eq pl have eq': "parse_loop s (i + 1) counts = Inr (Tuple c j)" by simp
    from parse_loop_forward [OF eq'] have "i + 1 \<le> j" by simp
    with ih3 [OF eq'] show ?thesis unfolding tr by auto
  qed
  from 1 2 3 show ?case by blast
qed

lemma strictly_increasing_length:
  fixes xs :: "nat list"
  assumes "sorted_wrt (<) xs" and "\<forall>k \<in> set xs. i \<le> k \<and> k < n"
  shows "length xs \<le> n - i"
proof -
  from assms(1) have "distinct xs" by (simp add: strict_sorted_iff)
  then have "length xs = card (set xs)" by (simp add: distinct_card)
  also have "\<dots> \<le> card {i ..< n}" using assms(2) by (intro card_mono) auto
  finally show ?thesis by simp
qed

section \<open>Facts about dictionaries of counts\<close>

lemma merge_counts_Nil [simp]: "merge_counts [] m acc = acc"
  by (simp add: merge_counts_def)

lemma merge_counts_Cons [simp]:
  "merge_counts ((a, n) # r) m acc = merge_counts r m (add_count a (n * m) acc)"
  by (simp add: merge_counts_def)

lemma has_key_add_count: "has_key a (add_count b n acc) = (a = b \<or> has_key a acc)"
  by (induction acc) (auto split: if_splits)







lemma lookup_add_count:
  "lookup_count (add_count b n acc) a = lookup_count acc a + (if a = b then n else 0)"
  by (induction acc) auto

lemma lookup_no_key: "\<not> has_key a c \<Longrightarrow> lookup_count c a = 0"
  by (induction c) auto

lemma distinct_keys_add_count: "distinct_keys acc \<Longrightarrow> distinct_keys (add_count b n acc)"
  by (induction acc) (auto simp add: has_key_add_count)

lemma distinct_keys_merge: "distinct_keys acc \<Longrightarrow> distinct_keys (merge_counts c m acc)"
proof (induction c arbitrary: acc)
  case Nil
  then show ?case by simp
next
  case (Cons p c)
  obtain b k where p: "p = (b, k)" by (cases p)
  from Cons.prems have "distinct_keys (add_count b (k * m) acc)"
    by (rule distinct_keys_add_count)
  from Cons.IH [OF this] show ?case by (simp add: p)
qed

lemma lookup_merge_counts:
  "distinct_keys c \<Longrightarrow>
   lookup_count (merge_counts c m acc) a = lookup_count acc a + lookup_count c a * m"
proof (induction c arbitrary: acc)
  case Nil
  show ?case by simp
next
  case (Cons p c)
  obtain b k where p: "p = (b, k)" by (cases p)
  from Cons.prems p have nk: "\<not> has_key b c" and dk: "distinct_keys c" by simp_all
  from Cons.IH [OF dk, of "add_count b (k * m) acc"] lookup_no_key [OF nk]
  show ?case by (auto simp add: p lookup_add_count)
qed

lemma positive_add_count:
  "0 < n \<Longrightarrow> positive_counts acc \<Longrightarrow> positive_counts (add_count b n acc)"
  by (induction acc) auto

lemma positive_merge_counts:
  "0 < m \<Longrightarrow> positive_counts c \<Longrightarrow> positive_counts acc \<Longrightarrow>
   positive_counts (merge_counts c m acc)"
proof (induction c arbitrary: acc)
  case Nil
  then show ?case by simp
next
  case (Cons p c)
  obtain b k where p: "p = (b, k)" by (cases p)
  from Cons.prems p have k: "0 < k" and pc: "positive_counts c" by simp_all
  from k Cons.prems(1) have "0 < k * m" by simp
  then have "positive_counts (add_count b (k * m) acc)"
    using Cons.prems(3) by (rule positive_add_count)
  from Cons.IH [OF Cons.prems(1) pc this] show ?case by (simp add: p)
qed

lemma has_key_positive:
  "positive_counts c \<Longrightarrow> has_key a c = (0 < lookup_count c a)"
  by (induction c) (auto split: if_splits)


section \<open>Parentheses and the parser\<close>










section \<open>The accumulated counts do not steer the parse\<close>


section \<open>The parser on a valid formula\<close>

lemma drop_Cons_nth: "drop i s = x # xs \<Longrightarrow> i < length s \<and> s ! i = x \<and> drop (Suc i) s = xs"
proof -
  assume a: "drop i s = x # xs"
  then have "i < length s" by (cases "i < length s") auto
  moreover from a have "s ! i = x" by (rule nth_via_drop)
  moreover from a have "drop (Suc i) s = xs"
    by (metis drop_Suc list.sel(3) tl_drop)
  ultimately show ?thesis by blast
qed

lemma skip_lower_run:
  "drop (Suc i) s = xs @ rest \<Longrightarrow> list_all islower xs \<Longrightarrow>
   (case rest of [] \<Rightarrow> True | c # _ \<Rightarrow> \<not> islower c) \<Longrightarrow> skip_lower s i = i + length xs"
proof (induction xs arbitrary: i)
  case Nil
  show ?case
  proof (cases rest)
    case Nil
    with Nil.prems have "\<not> Suc i < length s" by simp
    then show ?thesis by (subst skip_lower.simps) simp
  next
    case (Cons c cs)
    with Nil.prems drop_Cons_nth [of "Suc i" s c cs] have "\<not> islower (s ! Suc i)" by simp
    then show ?thesis by (subst skip_lower.simps) simp
  qed
next
  case (Cons x xs)
  from Cons.prems drop_Cons_nth [of "Suc i" s x "xs @ rest"]
  have 1: "Suc i < length s" "s ! Suc i = x" "drop (Suc (Suc i)) s = xs @ rest" by simp_all
  from Cons.prems have "islower x" "list_all islower xs" by simp_all
  with 1 Cons.IH [of "Suc i"] Cons.prems(3) have "skip_lower s (Suc i) = Suc i + length xs" by simp
  moreover from 1 \<open>islower x\<close> have "skip_lower s i = skip_lower s (Suc i)"
    by (subst skip_lower.simps) simp
  ultimately show ?case by simp
qed

lemma skip_digits_run:
  "drop (Suc i) s = xs @ rest \<Longrightarrow> list_all isdigit xs \<Longrightarrow>
   (case rest of [] \<Rightarrow> True | c # _ \<Rightarrow> \<not> isdigit c) \<Longrightarrow> skip_digits s i = i + length xs"
proof (induction xs arbitrary: i)
  case Nil
  show ?case
  proof (cases rest)
    case Nil
    with Nil.prems have "\<not> Suc i < length s" by simp
    then show ?thesis by (subst skip_digits.simps) simp
  next
    case (Cons c cs)
    with Nil.prems drop_Cons_nth [of "Suc i" s c cs] have "\<not> isdigit (s ! Suc i)" by simp
    then show ?thesis by (subst skip_digits.simps) simp
  qed
next
  case (Cons x xs)
  from Cons.prems drop_Cons_nth [of "Suc i" s x "xs @ rest"]
  have 1: "Suc i < length s" "s ! Suc i = x" "drop (Suc (Suc i)) s = xs @ rest" by simp_all
  from Cons.prems have "isdigit x" "list_all isdigit xs" by simp_all
  with 1 Cons.IH [of "Suc i"] Cons.prems(3) have "skip_digits s (Suc i) = Suc i + length xs" by simp
  moreover from 1 \<open>isdigit x\<close> have "skip_digits s i = skip_digits s (Suc i)"
    by (subst skip_digits.simps) simp
  ultimately show ?case by simp
qed

lemma slice_run: "drop a s = xs @ rest \<Longrightarrow> slice s a (a + length xs) = xs"
  by (simp add: slice_def)

lemma read_count_run:
  assumes "drop (Suc j) s = ds @ rest" and "list_all isdigit ds"
    and "case rest of [] \<Rightarrow> True | c # _ \<Rightarrow> \<not> isdigit c"
  shows "skip_digits s j = j + length ds"
    and "read_count s (j + 1) (skip_digits s j) = multiplier ds"
proof -
  show 1: "skip_digits s j = j + length ds"
    using assms by (rule skip_digits_run)
  show "read_count s (j + 1) (skip_digits s j) = multiplier ds"
  proof (cases "ds = []")
    case True
    with 1 show ?thesis by (simp add: read_count_def multiplier_def)
  next
    case False
    then have "j + 1 \<le> j + length ds" by (cases ds) simp_all
    moreover from assms(1) have "slice s (Suc j) (Suc j + length ds) = ds" by (rule slice_run)
    ultimately show ?thesis using False 1 by (simp add: read_count_def multiplier_def)
  qed
qed

lemma isupper_isalpha: "isupper c \<Longrightarrow> isalpha c"
  by (simp add: isupper_def isalpha_def Let_def)

lemma isupper_follow: "isupper c \<Longrightarrow> \<not> islower c \<and> \<not> isdigit c"
  by (auto simp add: isupper_def islower_def isdigit_def Let_def)

lemma isdigit_not_lower: "isdigit c \<Longrightarrow> \<not> islower c"
  by (auto simp add: islower_def isdigit_def Let_def)

lemma follow_ok_paren: "follow_ok (CHR '')'' # cs)" "follow_ok (CHR ''('' # cs)"
  by (simp_all add: follow_ok_def islower_def isdigit_def)

lemma follow_ok_not_lower: "follow_ok rest \<Longrightarrow> case rest of [] \<Rightarrow> True | c # _ \<Rightarrow> \<not> islower c"
  by (simp add: follow_ok_def split: list.splits)

lemma follow_ok_not_digit: "follow_ok rest \<Longrightarrow> case rest of [] \<Rightarrow> True | c # _ \<Rightarrow> \<not> isdigit c"
  by (simp add: follow_ok_def split: list.splits)

lemma digits_then_follow_not_lower:
  "list_all isdigit ds \<Longrightarrow> follow_ok rest \<Longrightarrow>
   case ds @ rest of [] \<Rightarrow> True | c # _ \<Rightarrow> \<not> islower c"
  by (cases ds) (simp_all add: follow_ok_not_lower isdigit_not_lower)

lemma parse_loop_element:
  assumes wf: "well_formed (Element symbol ds)"
    and dr: "drop i s = render (Element symbol ds) @ rest"
    and fo: "follow_ok rest"
  shows "parse_loop s i acc =
     parse_loop s (i + length (render (Element symbol ds)))
       (term_counts (Element symbol ds) acc)"
proof -
  from wf obtain u ls where sym: "symbol = u # ls" and u: "isupper u"
    and ls: "list_all islower ls" and dg: "list_all isdigit ds"
    by (cases symbol) auto
  from dr sym have dr0: "drop i s = u # (ls @ ds @ rest)" by simp
  from drop_Cons_nth [OF dr0]
  have i: "i < length s" "s ! i = u" and dr1: "drop (Suc i) s = ls @ (ds @ rest)" by simp_all
  have al: "isalpha (s ! i)" using i u by (simp add: isupper_isalpha)
  have i1: "skip_lower s i = i + length ls"
    using dr1 ls digits_then_follow_not_lower [OF dg fo] by (rule skip_lower_run)
  have "drop (Suc (i + length ls)) s = drop (length ls) (drop (Suc i) s)"
    by (simp add: add.commute)
  with dr1 have dr2: "drop (Suc (skip_lower s i)) s = ds @ rest" by (simp add: i1)
  note rc = read_count_run [OF dr2 dg follow_ok_not_digit [OF fo]]
  have sl: "slice s i (skip_lower s i + 1) = symbol"
    using slice_run [of i s "u # ls" "ds @ rest"] dr0 by (simp add: i1 sym)
  have pos: "skip_digits s (skip_lower s i) + 1 = i + length (render (Element symbol ds))"
    using rc(1) by (simp add: i1 sym)
  show ?thesis
    unfolding parse_loop_alpha [OF i(1) al] sl rc(2) pos by simp
qed

lemma render_head:
  "well_formed t \<Longrightarrow> \<exists>c cs. render t = c # cs \<and> \<not> islower c \<and> \<not> isdigit c"
proof (cases t)
  case (Element symbol ds)
  assume "well_formed t"
  with Element obtain u ls where "symbol = u # ls" "isupper u" by (cases symbol) auto
  with Element show ?thesis by (simp add: isupper_follow)
next
  case (Group ts ds)
  then show ?thesis by (simp add: islower_def isdigit_def)
qed

lemma follow_ok_render:
  "list_all well_formed ts \<Longrightarrow> follow_ok rest \<Longrightarrow> follow_ok (concat (map render ts) @ rest)"
proof (cases ts)
  case Nil
  assume "follow_ok rest"
  with Nil show ?thesis by simp
next
  case (Cons t ts')
  assume "list_all well_formed ts"
  with Cons have "well_formed t" by simp
  from render_head [OF this] obtain c cs where "render t = c # cs" "\<not> islower c" "\<not> isdigit c"
    by blast
  with Cons show ?thesis by (simp add: follow_ok_def)
qed

lemma parse_loop_terms:
  assumes step: "\<And>t s i acc rest. t \<in> set ts \<Longrightarrow> well_formed t \<Longrightarrow>
      drop i s = render t @ rest \<Longrightarrow> follow_ok rest \<Longrightarrow>
      parse_loop s i acc = parse_loop s (i + length (render t)) (term_counts t acc)"
    and wf: "list_all well_formed ts"
    and dr: "drop i s = concat (map render ts) @ rest"
    and fo: "follow_ok rest"
  shows "parse_loop s i acc =
     parse_loop s (i + length (concat (map render ts))) (fold term_counts ts acc)"
  using assms
proof (induction ts arbitrary: i acc)
  case Nil
  show ?case by simp
next
  case (Cons t ts)
  from Cons.prems(2) have wt: "well_formed t" and wts: "list_all well_formed ts" by simp_all
  let ?rest = "concat (map render ts) @ rest"
  from Cons.prems(3) have dr: "drop i s = render t @ ?rest" by simp
  have fo': "follow_ok ?rest" using wts Cons.prems(4) by (rule follow_ok_render)
  have 1: "parse_loop s i acc = parse_loop s (i + length (render t)) (term_counts t acc)"
    by (rule Cons.prems(1) [OF _ wt dr fo']) simp
  have "drop (i + length (render t)) s = drop (length (render t)) (drop i s)"
    by (simp add: add.commute)
  with dr have dr': "drop (i + length (render t)) s = ?rest" by simp
  have 2: "parse_loop s (i + length (render t)) (term_counts t acc) =
      parse_loop s (i + length (render t) + length (concat (map render ts)))
        (fold term_counts ts (term_counts t acc))"
    using Cons.prems(1) wts dr' Cons.prems(4) by (intro Cons.IH) auto
  from 1 2 show ?case by (simp add: add.assoc)
qed

lemma parse_loop_term:
  "well_formed t \<Longrightarrow> drop i s = render t @ rest \<Longrightarrow> follow_ok rest \<Longrightarrow>
   parse_loop s i acc = parse_loop s (i + length (render t)) (term_counts t acc)"
proof (induction t arbitrary: s i acc rest)
  case (Element symbol ds)
  then show ?case by (rule parse_loop_element)
next
  case (Group ts ds)
  let ?body = "concat (map render ts)"
  let ?L = "length ?body"
  from Group.prems(1) have wts: "list_all well_formed ts" and dg: "list_all isdigit ds"
    by simp_all
  from Group.prems(2) have dr0: "drop i s = CHR ''('' # (?body @ CHR '')'' # ds @ rest)" by simp
  from drop_Cons_nth [OF dr0]
  have i: "i < length s" "s ! i = CHR ''(''"
    and dr1: "drop (i + 1) s = ?body @ (CHR '')'' # ds @ rest)" by simp_all
  have inner0: "parse_loop s (i + 1) [] = parse_loop s (i + 1 + ?L) (fold term_counts ts [])"
    using Group.IH wts dr1 follow_ok_paren(1) by (intro parse_loop_terms) auto
  have "drop (i + 1 + ?L) s = drop ?L (drop (i + 1) s)" by (simp add: add.commute)
  with dr1 have dr2: "drop (i + 1 + ?L) s = CHR '')'' # (ds @ rest)" by simp
  from drop_Cons_nth [OF dr2]
  have j: "i + 1 + ?L < length s" "s ! (i + 1 + ?L) = CHR '')''"
    and dr3: "drop (Suc (i + 1 + ?L)) s = ds @ rest" by simp_all
  have inner: "parse_loop s (i + 1) [] = Inr (Tuple (fold term_counts ts []) (i + 1 + ?L))"
    unfolding inner0 using j by (rule parse_loop_close)
  note rc = read_count_run [OF dr3 dg follow_ok_not_digit [OF Group.prems(3)]]
  have pos: "skip_digits s (i + 1 + ?L) + 1 = i + length (render (Group ts ds))"
    using rc(1) by simp
  show ?case
    unfolding parse_loop_open [OF i] inner using rc(2) pos by simp
qed

lemma parse_render_formula:
  assumes "list_all well_formed ts"
  shows "parse (render_formula ts) 0 = Inr (Dict (fold term_counts ts []))"
proof -
  let ?s = "render_formula ts"
  have fo: "follow_ok []" by (simp add: follow_ok_def)
  have dr: "drop 0 ?s = concat (map render ts) @ []" by (simp add: render_formula_def)
  have "parse_loop ?s 0 [] = parse_loop ?s (0 + length (concat (map render ts))) (fold term_counts ts [])"
    using parse_loop_term assms dr fo by (rule parse_loop_terms)
  also have "\<dots> = Inr (Dict (fold term_counts ts []))"
    by (simp add: parse_loop_end render_formula_def)
  finally show ?thesis by (simp add: parse_def)
qed

lemma distinct_keys_term_counts: "distinct_keys acc \<Longrightarrow> distinct_keys (term_counts t acc)"
  by (cases t) (simp_all add: distinct_keys_add_count distinct_keys_merge)

lemma distinct_keys_fold: "distinct_keys acc \<Longrightarrow> distinct_keys (fold term_counts ts acc)"
  by (induction ts arbitrary: acc) (simp_all add: distinct_keys_term_counts)

lemma count_list_replicate: "count_list (replicate n x) a = (if x = a then n else 0)"
  by (induction n) auto

lemma count_list_concat_replicate: "count_list (concat (replicate m xs)) a = m * count_list xs a"
  by (induction m) auto

lemma lookup_fold_term_counts:
  assumes "\<And>t acc. t \<in> set ts \<Longrightarrow>
      lookup_count (term_counts t acc) a = lookup_count acc a + count_list (expand t) a"
  shows "lookup_count (fold term_counts ts acc) a =
      lookup_count acc a + count_list (concat (map expand ts)) a"
  using assms by (induction ts arbitrary: acc) simp_all

lemma lookup_term_counts:
  "lookup_count (term_counts t acc) a = lookup_count acc a + count_list (expand t) a"
proof (induction t arbitrary: acc)
  case (Element symbol ds)
  show ?case by (auto simp add: lookup_add_count count_list_replicate)
next
  case (Group ts ds)
  have dk: "distinct_keys (fold term_counts ts [])"
    by (rule distinct_keys_fold) simp
  have "lookup_count (fold term_counts ts []) a = count_list (concat (map expand ts)) a"
    using lookup_fold_term_counts [of ts a "[]"] Group.IH by simp
  then show ?case
    by (simp add: lookup_merge_counts [OF dk] count_list_concat_replicate mult.commute)
qed

lemma positive_fold_term_counts:
  assumes "\<And>t acc. t \<in> set ts \<Longrightarrow> positive_multipliers t \<Longrightarrow> positive_counts acc \<Longrightarrow>
      positive_counts (term_counts t acc)"
    and "list_all positive_multipliers ts" and "positive_counts acc"
  shows "positive_counts (fold term_counts ts acc)"
  using assms by (induction ts arbitrary: acc) simp_all

lemma positive_term_counts:
  "positive_multipliers t \<Longrightarrow> positive_counts acc \<Longrightarrow> positive_counts (term_counts t acc)"
proof (induction t arbitrary: acc)
  case (Element symbol ds)
  then show ?case by (simp add: positive_add_count)
next
  case (Group ts ds)
  from Group.prems have pm: "list_all positive_multipliers ts" and m: "0 < multiplier ds"
    by simp_all
  have "positive_counts (fold term_counts ts [])"
    using Group.IH pm by (rule positive_fold_term_counts) simp_all
  with m Group.prems(2) show ?case by (simp add: positive_merge_counts)
qed

section \<open>Worked examples\<close>

lemma parse_H2O: "parse ''H2O'' 0 = Inr (Dict [(''H'', 2), (''O'', 1)])"
  by code_simp

lemma parse_MgOH2: "parse ''Mg(OH)2'' 0 = Inr (Dict [(''Mg'', 1), (''O'', 2), (''H'', 2)])"
  by code_simp

lemma parse_K4ONSO322:
  "parse ''K4(ON(SO3)2)2'' 0 = Inr (Dict [(''K'', 4), (''O'', 14), (''N'', 2), (''S'', 4)])"
  by code_simp

lemma parse_C6H12O6: "parse ''C6H12O6'' 0 = Inr (Dict [(''C'', 6), (''H'', 12), (''O'', 6)])"
  by code_simp

lemma parse_Na: "parse ''Na'' 0 = Inr (Dict [(''Na'', 1)])"
  by code_simp

text \<open>
  Claim C1. On the example formulas the parser returns the stated quantities:
  \<^verbatim>\<open>H2O\<close> gives H 2, O 1; \<^verbatim>\<open>Mg(OH)2\<close> gives Mg 1, O 2, H 2; \<^verbatim>\<open>K4(ON(SO3)2)2\<close> gives
  K 4, O 14, N 2, S 4; \<^verbatim>\<open>C6H12O6\<close> gives C 6, H 12, O 6; and \<^verbatim>\<open>Na\<close>, an element
  without a count, gives Na 1. Each result is the bare dictionary, with its items in
  insertion order.
\<close>

theorem parse_examples:
  "parse ''H2O'' 0 = Inr (Dict [(''H'', 2), (''O'', 1)]) \<and>
   parse ''Mg(OH)2'' 0 = Inr (Dict [(''Mg'', 1), (''O'', 2), (''H'', 2)]) \<and>
   parse ''K4(ON(SO3)2)2'' 0 = Inr (Dict [(''K'', 4), (''O'', 14), (''N'', 2), (''S'', 4)]) \<and>
   parse ''C6H12O6'' 0 = Inr (Dict [(''C'', 6), (''H'', 12), (''O'', 6)]) \<and>
   parse ''Na'' 0 = Inr (Dict [(''Na'', 1)])"
  using parse_H2O parse_MgOH2 parse_K4ONSO322 parse_C6H12O6 parse_Na by blast

section \<open>Incremental multiplication equals full expansion\<close>

text \<open>
  Claim C2. For every valid formula the parser succeeds, and the dictionary it builds by
  multiplying on group exit agrees with the reference that expands every group before
  counting: its keys are distinct, and every symbol reads in it as the number of its
  occurrences in the full expansion (a symbol that is absent reads as 0, as in a
  \<^verbatim>\<open>defaultdict(int)\<close>). When no count or multiplier is zero, the keys of the dictionary are
  exactly the symbols that occur in the expansion, so that the two mappings are equal.
\<close>

theorem parse_equals_expansion:
  assumes "list_all well_formed ts"
  shows "\<exists>c. parse (render_formula ts) 0 = Inr (Dict c) \<and> distinct_keys c \<and>
     (\<forall>a. lookup_count c a = count_list (expand_formula ts) a) \<and>
     (list_all positive_multipliers ts \<longrightarrow>
        (\<forall>a. has_key a c = (a \<in> set (expand_formula ts))))"
proof (intro exI conjI allI impI)
  let ?c = "fold term_counts ts []"
  show "parse (render_formula ts) 0 = Inr (Dict ?c)"
    using assms by (rule parse_render_formula)
  show "distinct_keys ?c"
    by (rule distinct_keys_fold) simp
  show lk: "lookup_count ?c a = count_list (expand_formula ts) a" for a
    using lookup_fold_term_counts [of ts a "[]"] lookup_term_counts
    by (simp add: expand_formula_def)
  show "has_key a ?c = (a \<in> set (expand_formula ts))"
    if pm: "list_all positive_multipliers ts" for a
  proof -
    have "positive_counts ?c"
    proof (rule positive_fold_term_counts [OF positive_term_counts pm])
      show "positive_counts []" by simp
    qed
    then have "has_key a ?c = (0 < lookup_count ?c a)" by (rule has_key_positive)
    also have "\<dots> = (a \<in> set (expand_formula ts))"
      using count_list_0_iff [of "expand_formula ts" a] by (auto simp add: lk)
    finally show ?thesis .
  qed
qed

theorem parse_equals_expansion_witness:
  "list_all well_formed
     [Element ''K'' ''4'',
      Group [Element ''O'' [], Element ''N'' [],
             Group [Element ''S'' [], Element ''O'' ''3''] ''2''] ''2''] \<and>
   list_all positive_multipliers
     [Element ''K'' ''4'',
      Group [Element ''O'' [], Element ''N'' [],
             Group [Element ''S'' [], Element ''O'' ''3''] ''2''] ''2''] \<and>
   render_formula
     [Element ''K'' ''4'',
      Group [Element ''O'' [], Element ''N'' [],
             Group [Element ''S'' [], Element ''O'' ''3''] ''2''] ''2''] = ''K4(ON(SO3)2)2'' \<and>
   (\<exists>c. parse ''K4(ON(SO3)2)2'' 0 = Inr (Dict c) \<and> distinct_keys c \<and>
      (\<forall>a. lookup_count c a =
         count_list (expand_formula
           [Element ''K'' ''4'',
            Group [Element ''O'' [], Element ''N'' [],
                   Group [Element ''S'' [], Element ''O'' ''3''] ''2''] ''2'']) a) \<and>
      (\<forall>a. has_key a c =
         (a \<in> set (expand_formula
           [Element ''K'' ''4'',
            Group [Element ''O'' [], Element ''N'' [],
                   Group [Element ''S'' [], Element ''O'' ''3''] ''2''] ''2'']))))"
proof -
  let ?ts = "[Element ''K'' ''4'',
      Group [Element ''O'' [], Element ''N'' [],
             Group [Element ''S'' [], Element ''O'' ''3''] ''2''] ''2'']"
  have wf: "list_all well_formed ?ts" by code_simp
  have pm: "list_all positive_multipliers ?ts" by code_simp
  have r: "render_formula ?ts = ''K4(ON(SO3)2)2''" by (simp add: render_formula_def)
  from parse_equals_expansion [OF wf] obtain c where
    "parse (render_formula ?ts) 0 = Inr (Dict c)" "distinct_keys c"
    "\<forall>a. lookup_count c a = count_list (expand_formula ?ts) a"
    "list_all positive_multipliers ?ts \<longrightarrow> (\<forall>a. has_key a c = (a \<in> set (expand_formula ?ts)))"
    by blast
  with pm have "parse ''K4(ON(SO3)2)2'' 0 = Inr (Dict c) \<and> distinct_keys c \<and>
      (\<forall>a. lookup_count c a = count_list (expand_formula ?ts) a) \<and>
      (\<forall>a. has_key a c = (a \<in> set (expand_formula ?ts)))"
    unfolding r by blast
  then show ?thesis using wf pm r by blast
qed

section \<open>Characters outside the grammar raise no error\<close>




section \<open>Unbalanced parentheses\<close>




section \<open>The two return shapes\<close>




section \<open>The result depends on the input alone\<close>


section \<open>The cursor only moves forward\<close>

text \<open>
  Claim C7. For every string \<open>s\<close> and start index \<open>i\<close> the cursor is never rewound: the
  values it takes, over all three loops and all levels of the recursion, are strictly
  increasing and none is to the left of \<open>i\<close>; each inner loop stops at or after the
  position where it started; and the position a parse step returns is at or after the
  position where it started.
\<close>

theorem cursor_never_rewound:
  "sorted_wrt (<) (cursor_trace s i) \<and>
   (\<forall>k \<in> set (cursor_trace s i). i \<le> k) \<and>
   i \<le> skip_lower s i \<and> i \<le> skip_digits s i \<and>
   (\<forall>c j. parse_loop s i counts = Inr (Tuple c j) \<longrightarrow> i \<le> j)"
proof -
  from cursor_trace_bounds [of s i counts]
  have "sorted_wrt (<) (cursor_trace s i)" and "\<forall>k \<in> set (cursor_trace s i). i \<le> k"
    by blast+
  moreover have "\<forall>c j. parse_loop s i counts = Inr (Tuple c j) \<longrightarrow> i \<le> j"
    using parse_loop_forward by blast
  ultimately show ?thesis
    using skip_lower_ge [of i s] skip_digits_ge [of i s] by blast
qed

theorem cursor_never_rewound_witness:
  "parse_loop ''Mg(OH)2'' 3 [] = Inr (Tuple [(''O'', 1), (''H'', 1)] 5) \<and> (3::nat) \<le> 5 \<and>
   cursor_trace ''Mg(OH)2'' 3 = [3, 4, 5] \<and> sorted_wrt (<) (cursor_trace ''Mg(OH)2'' 3)"
proof -
  have ret: "parse_loop ''Mg(OH)2'' 3 [] = Inr (Tuple [(''O'', 1), (''H'', 1)] 5)"
    by code_simp
  have tr: "cursor_trace ''Mg(OH)2'' 3 = [3, 4, 5]"
    by code_simp
  note inst = cursor_never_rewound [of "''Mg(OH)2''" 3 "[]"]
  from inst ret have "(3::nat) \<le> 5" by blast
  moreover from inst have "sorted_wrt (<) (cursor_trace ''Mg(OH)2'' 3)" by blast
  ultimately show ?thesis using ret tr by blast
qed

section \<open>Termination\<close>

text \<open>
  Claim C8. The parser terminates on every input: every argument of the loop is in the
  accessible part of its call relation, so that no chain of recursive calls is infinite.
  The work is linear: the number of loop iterations, over the three loops and all levels
  of the recursion, is at most the number of characters from the start position on, since
  every iteration is at a cursor position of its own. An iteration tests only the
  character at the cursor or the one after it; besides these tests, the characters of
  an element are read once more by the slice that takes its symbol or its count.
\<close>

theorem parse_terminates_linear:
  "parse_loop_dom (s, i, counts) \<and> length (cursor_trace s i) \<le> length s - i"
proof
  show "parse_loop_dom (s, i, counts)"
    using parse_loop_total by blast
  from cursor_trace_bounds [of s i counts]
  show "length (cursor_trace s i) \<le> length s - i"
    by (intro strictly_increasing_length) blast+
qed

section \<open>The empty formula\<close>

text \<open>
  Claim C9. Parsing the empty string succeeds with the empty dictionary, and
  \<^verbatim>\<open>count_of_atoms\<close> prints nothing and raises nothing.
\<close>

theorem parse_empty_string:
  "parse [] 0 = Inr (Dict []) \<and> count_of_atoms [] = Inr []"
  by (simp add: parse_def count_of_atoms_def parse_loop_end)

section \<open>Characters that belong to no element or group\<close>



end
